theory Spec2Isabelle
  imports Main "HOL-Library.AList"
begin

section \<open>Python values and text helpers\<close>

text \<open>
  Grid cells are the three tokens of \<^verbatim>\<open>environment.py\<close>: \<^verbatim>\<open>0\<close> (open), \<^verbatim>\<open>'W'\<close> (wall) and
  \<^verbatim>\<open>'T'\<close> (treasure). Positions are pairs of Python integers. Text is ASCII; characters of
  code 128 and above are neither whitespace nor word characters here and are left alone by
  \<open>upper\<close>.
\<close>

datatype cell = Open | Wall | Treasure

type_synonym pos = "int \<times> int"
type_synonym grid = "cell list list"

datatype exn = IndexError | KeyError pos | TypeError string

text \<open>\<^verbatim>\<open>xs[i]\<close>: a negative index counts from the end, anything else out of range raises.\<close>

definition py_index :: "'a list \<Rightarrow> int \<Rightarrow> exn + 'a" where
  "py_index xs i =
     (if 0 \<le> i \<and> i < int (length xs) then Inr (xs ! nat i)
      else if i < 0 \<and> - int (length xs) \<le> i then Inr (xs ! nat (i + int (length xs)))
      else Inl IndexError)"

text \<open>\<^verbatim>\<open>grid[r][c]\<close>\<close>

definition grid_at :: "grid \<Rightarrow> int \<Rightarrow> int \<Rightarrow> exn + cell" where
  "grid_at g r c = (case py_index g r of Inl e \<Rightarrow> Inl e | Inr row \<Rightarrow> py_index row c)"

text \<open>\<^verbatim>\<open>str.upper()\<close> on ASCII text.\<close>

definition upper_char :: "char \<Rightarrow> char" where
  "upper_char ch =
     (let n = (of_char ch :: nat) in if 97 \<le> n \<and> n \<le> 122 then char_of (n - 32) else ch)"

definition upper :: "string \<Rightarrow> string" where
  "upper s = map upper_char s"

text \<open>\<^verbatim>\<open>str(n)\<close> for an integer, and \<^verbatim>\<open>str((r, c))\<close> for a pair of integers.\<close>

fun str_nat :: "nat \<Rightarrow> string" where
  "str_nat n = (if n < 10 then [char_of (48 + n)] else str_nat (n div 10) @ [char_of (48 + n mod 10)])"

declare str_nat.simps [simp del]

definition str_int :: "int \<Rightarrow> string" where
  "str_int i = (if i < 0 then CHR ''-'' # str_nat (nat (- i)) else str_nat (nat i))"

definition str_pos :: "pos \<Rightarrow> string" where
  "str_pos p = ''('' @ str_int (fst p) @ '', '' @ str_int (snd p) @ '')''"

fun str_exn :: "exn \<Rightarrow> string" where
  "str_exn IndexError = ''list index out of range''"
| "str_exn (KeyError p) = str_pos p"
| "str_exn (TypeError m) = m"

text \<open>\<^verbatim>\<open>s.startswith(p)\<close> and \<^verbatim>\<open>p in s\<close>.\<close>

definition startswith :: "string \<Rightarrow> string \<Rightarrow> bool" where
  "startswith s p = (take (length p) s = p)"

fun contains :: "string \<Rightarrow> string \<Rightarrow> bool" where
  "contains [] p = (p = [])"
| "contains (c # cs) p = (startswith (c # cs) p \<or> contains cs p)"

text \<open>The character classes \<^verbatim>\<open>\s\<close> and \<^verbatim>\<open>\w\<close> of \<^verbatim>\<open>re\<close>, and \<^verbatim>\<open>str.strip()\<close>.\<close>

definition is_space :: "char \<Rightarrow> bool" where
  "is_space ch = (let n = (of_char ch :: nat) in (9 \<le> n \<and> n \<le> 13) \<or> (28 \<le> n \<and> n \<le> 32))"

definition is_word :: "char \<Rightarrow> bool" where
  "is_word ch =
     (let n = (of_char ch :: nat)
      in (48 \<le> n \<and> n \<le> 57) \<or> (65 \<le> n \<and> n \<le> 90) \<or> n = 95 \<or> (97 \<le> n \<and> n \<le> 122))"

definition newline :: char where
  "newline = char_of (10 :: nat)"

definition strip :: "string \<Rightarrow> string" where
  "strip s = rev (dropWhile is_space (rev (dropWhile is_space s)))"

section \<open>environment.py\<close>

record env =
  grid :: grid
  agent_pos :: pos
  map_memory :: "(string \<times> string) list"

text \<open>\<^verbatim>\<open>SimpleEnvironment.__init__\<close>\<close>

definition grid0 :: grid where
  "grid0 =
     [[Wall, Wall, Wall, Wall, Wall],
      [Wall, Open, Open, Wall, Wall],
      [Wall, Open, Wall, Open, Treasure],
      [Wall, Open, Open, Open, Wall],
      [Wall, Wall, Wall, Wall, Wall]]"

definition environment :: env where
  "environment = \<lparr>grid = grid0, agent_pos = (1, 1), map_memory = []\<rparr>"

definition get_pos :: "env \<Rightarrow> string" where
  "get_pos e = str_pos (agent_pos e)"

definition update_map :: "env \<Rightarrow> string \<Rightarrow> string \<Rightarrow> string \<times> env" where
  "update_map e pos observation =
     (''OBSERVATION: Map memory updated for location '' @ pos @ ''.'',
      e\<lparr>map_memory := AList.update pos observation (map_memory e)\<rparr>)"

definition msg_on_treasure :: string where
  "msg_on_treasure = ''SUCCESS: You are standing on the Treasure tile!''"

definition look_around :: "env \<Rightarrow> exn + string" where
  "look_around e =
     (case grid_at (grid e) (fst (agent_pos e)) (snd (agent_pos e)) of
        Inl x \<Rightarrow> Inl x
      | Inr current_cell \<Rightarrow>
          if current_cell = Treasure then Inr msg_on_treasure
          else Inr (''OBSERVATION: You are at '' @ str_pos (agent_pos e) @ ''. This area is Open.''))"

definition msg_invalid :: string where
  "msg_invalid = ''ERROR: Invalid direction. Use NORTH, SOUTH, EAST, or WEST.''"

definition msg_success :: string where
  "msg_success = ''SUCCESS: GOAL FOUND. You have reached the Treasure!''"

definition msg_moved :: "pos \<Rightarrow> string" where
  "msg_moved p = ''OBSERVATION: Moved successfully. New position: '' @ str_pos p @ ''. Area is Open.''"

definition msg_blocked :: string where
  "msg_blocked = ''OBSERVATION: Movement blocked by a Wall or grid boundary. Position remains unchanged.''"

text \<open>The \<^verbatim>\<open>if/elif\<close> chain of \<^verbatim>\<open>move_agent\<close> on the upper-cased direction.\<close>

definition target_cell :: "string \<Rightarrow> pos \<Rightarrow> pos option" where
  "target_cell d p =
     (if d = ''NORTH'' then Some (fst p - 1, snd p)
      else if d = ''SOUTH'' then Some (fst p + 1, snd p)
      else if d = ''EAST'' then Some (fst p, snd p + 1)
      else if d = ''WEST'' then Some (fst p, snd p - 1)
      else None)"

definition move_agent :: "env \<Rightarrow> string \<Rightarrow> exn + (string \<times> env)" where
  "move_agent e direction =
     (case target_cell (upper direction) (agent_pos e) of
        None \<Rightarrow> Inr (msg_invalid, e)
      | Some (new_r, new_c) \<Rightarrow>
          if \<not> (0 \<le> new_r \<and> new_r < int (length (grid e))) then Inr (msg_blocked, e)
          else (case py_index (grid e) 0 of
                  Inl x \<Rightarrow> Inl x
                | Inr row0 \<Rightarrow>
                    if \<not> (0 \<le> new_c \<and> new_c < int (length row0)) then Inr (msg_blocked, e)
                    else (case grid_at (grid e) new_r new_c of
                            Inl x \<Rightarrow> Inl x
                          | Inr cl \<Rightarrow>
                              if cl \<noteq> Wall then
                                (if cl = Treasure
                                 then Inr (msg_success, e\<lparr>agent_pos := (new_r, new_c)\<rparr>)
                                 else Inr (msg_moved (new_r, new_c), e\<lparr>agent_pos := (new_r, new_c)\<rparr>))
                              else Inr (msg_blocked, e))))"

section \<open>agent_explorer.py: the planner\<close>

text \<open>
  \<^verbatim>\<open>targets = [(r, c) for r in range(rows) for c in range(cols) if grid[r][c] == 'T']\<close>:
  the cells are read in row-major order, and the first read that is out of range raises.
\<close>

fun collect :: "grid \<Rightarrow> (nat \<times> nat) list \<Rightarrow> exn + pos list" where
  "collect g [] = Inr []"
| "collect g ((r, c) # rest) =
     (case grid_at g (int r) (int c) of
        Inl x \<Rightarrow> Inl x
      | Inr cl \<Rightarrow>
          (case collect g rest of
             Inl x \<Rightarrow> Inl x
           | Inr ts \<Rightarrow> Inr (if cl = Treasure then (int r, int c) # ts else ts)))"

definition find_targets :: "grid \<Rightarrow> exn + pos list" where
  "find_targets g =
     (case py_index g 0 of
        Inl x \<Rightarrow> Inl x
      | Inr row0 \<Rightarrow> collect g (List.product [0..<length g] [0..<length row0]))"

text \<open>
  The generator \<^verbatim>\<open>neighbors\<close>, with \<^verbatim>\<open>rows = len(grid)\<close> and \<^verbatim>\<open>cols = len(grid[0])\<close>. It runs
  only after the scan above has read every cell \<open>(r, c)\<close> with \<open>r < rows\<close> and \<open>c < cols\<close>, so
  the guarded read \<^verbatim>\<open>grid[nr][nc]\<close> cannot raise.
\<close>

definition offsets :: "(string \<times> int \<times> int) list" where
  "offsets = [(''NORTH'', (-1, 0)), (''SOUTH'', (1, 0)), (''EAST'', (0, 1)), (''WEST'', (0, -1))]"

definition legal :: "grid \<Rightarrow> pos \<Rightarrow> bool" where
  "legal g p =
     (0 \<le> fst p \<and> fst p < int (length g) \<and> 0 \<le> snd p \<and> snd p < int (length (g ! 0)) \<and>
      g ! nat (fst p) ! nat (snd p) \<noteq> Wall)"

definition neighbors :: "grid \<Rightarrow> pos \<Rightarrow> (pos \<times> string) list" where
  "neighbors g p =
     map (\<lambda>(d, dr, dc). ((fst p + dr, snd p + dc), d))
       (filter (\<lambda>(d, dr, dc). legal g (fst p + dr, snd p + dc)) offsets)"

record bfs_state =
  q :: "pos list"
  prev :: "pos \<rightharpoonup> pos option"
  prev_move :: "pos \<rightharpoonup> string"

text \<open>The \<^verbatim>\<open>for nbr, direction in neighbors(node)\<close> loop.\<close>

fun visit :: "pos \<Rightarrow> bfs_state \<Rightarrow> (pos \<times> string) list \<Rightarrow> bfs_state" where
  "visit node st [] = st"
| "visit node st ((nbr, direction) # rest) =
     visit node
       (if prev st nbr = None
        then st\<lparr>q := q st @ [nbr], prev := (prev st)(nbr \<mapsto> Some node),
                prev_move := (prev_move st)(nbr \<mapsto> direction)\<rparr>
        else st)
       rest"

definition cells :: "grid \<Rightarrow> pos set" where
  "cells g = {0..<int (length g)} \<times> {0..<int (length (g ! 0))}"

definition unvisited :: "grid \<Rightarrow> bfs_state \<Rightarrow> pos set" where
  "unvisited g st = {p \<in> cells g. prev st p = None}"

definition bfs_measure :: "grid \<Rightarrow> bfs_state \<Rightarrow> nat" where
  "bfs_measure g st = 2 * card (unvisited g st) + length (q st)"

text \<open>The \<^verbatim>\<open>while q\<close> loop; the first component of the result is \<^verbatim>\<open>found\<close>.\<close>

function bfs :: "grid \<Rightarrow> pos \<Rightarrow> bfs_state \<Rightarrow> bool \<times> bfs_state" where
  "bfs g target st =
     (case q st of
        [] \<Rightarrow> (False, st)
      | node # rest \<Rightarrow>
          if node = target then (True, st\<lparr>q := rest\<rparr>)
          else bfs g target (visit node (st\<lparr>q := rest\<rparr>) (neighbors g node)))"
  by pat_completeness auto
text \<open>
  The loop \<^verbatim>\<open>while prev[cur] is not None\<close>; it follows the \<^verbatim>\<open>prev\<close> links, and on a dictionary
  with a cycle it would not return, which is the value \<open>None\<close> here.
\<close>

partial_function (option) reconstruct ::
  "(pos \<rightharpoonup> pos option) \<Rightarrow> (pos \<rightharpoonup> string) \<Rightarrow> pos \<Rightarrow> string list \<Rightarrow> (exn + string list) option" where
  "reconstruct prv pm cur path_dirs =
     (case prv cur of
        None \<Rightarrow> Some (Inl (KeyError cur))
      | Some None \<Rightarrow> Some (Inr path_dirs)
      | Some (Some p) \<Rightarrow>
          (case pm cur of
             None \<Rightarrow> Some (Inl (KeyError cur))
           | Some d \<Rightarrow> reconstruct prv pm p (path_dirs @ [d])))"


text \<open>
  The plan cached on the function object: \<open>None\<close> while the attribute \<^verbatim>\<open>_plan\<close> does not
  exist, otherwise the pair of \<^verbatim>\<open>_plan\<close> and \<^verbatim>\<open>_plan_owner\<close>.
\<close>

type_synonym cache = "(string list \<times> pos) option"

definition msg_no_treasure :: string where
  "msg_no_treasure = ''Final Answer: No Treasure tile ('' @ [char_of (39 :: nat)] @ ''T'' @ [char_of (39 :: nat)] @ '') present in the environment grid.''"

definition msg_no_path :: string where
  "msg_no_path = ''Final Answer: No path to Treasure found (blocked by walls).''"

definition msg_final_success :: string where
  "msg_final_success = ''Final Answer: SUCCESS - Agent reached the Treasure.''"

definition msg_no_steps :: string where
  "msg_no_steps = ''Final Answer: No further steps in plan and not on Treasure.''"

definition msg_action :: "nat \<Rightarrow> string \<Rightarrow> string" where
  "msg_action n next_dir =
     ''Thought: I computed a path of '' @ str_nat n @ '' steps to the Treasure. Next move is '' @ next_dir @ ''.''
     @ [newline] @ ''Action: move_agent'' @ [newline] @ ''Action Input: '' @ next_dir"

text \<open>Lines 62 to 95: the search from \<^verbatim>\<open>start\<close> and the reversed list of directions.\<close>

definition path_dirs :: "grid \<Rightarrow> pos \<Rightarrow> pos \<Rightarrow> (exn + string list option) option" where
  "path_dirs g start target =
     (case bfs g target \<lparr>q = [start], prev = [start \<mapsto> None], prev_move = Map.empty\<rparr> of
        (found, st) \<Rightarrow>
          if \<not> found then Some (Inr None)
          else (case reconstruct (prev st) (prev_move st) target [] of
                  None \<Rightarrow> None
                | Some (Inl x) \<Rightarrow> Some (Inl x)
                | Some (Inr ds) \<Rightarrow> Some (Inr (Some (rev ds)))))"

text \<open>
  \<^verbatim>\<open>get_llm_response\<close>. The result is \<open>None\<close> when the call does not return, \<open>Some (Inl x)\<close>
  when it raises \<open>x\<close>, and otherwise the returned text with the cache as the call leaves it.
  A call that raises is not caught by the loop, so the cache it leaves is not modelled.
  The argument \<open>history\<close> is not read by the source.
\<close>

definition get_llm_response :: "'h \<Rightarrow> env \<Rightarrow> cache \<Rightarrow> (exn + string \<times> cache) option" where
  "get_llm_response history e c =
     (case find_targets (grid e) of
        Inl x \<Rightarrow> Some (Inl x)
      | Inr [] \<Rightarrow> Some (Inr (msg_no_treasure, c))
      | Inr (target # other) \<Rightarrow>
          (case path_dirs (grid e) (agent_pos e) target of
             None \<Rightarrow> None
           | Some (Inl x) \<Rightarrow> Some (Inl x)
           | Some (Inr None) \<Rightarrow> Some (Inr (msg_no_path, c))
           | Some (Inr (Some ds)) \<Rightarrow>
               (let (plan, owner) =
                      (case c of
                         None \<Rightarrow> (ds, agent_pos e)
                       | Some (pl, ow) \<Rightarrow> if ow \<noteq> agent_pos e then (ds, agent_pos e) else (pl, ow))
                in case plan of
                     [] \<Rightarrow>
                       (case grid_at (grid e) (fst (agent_pos e)) (snd (agent_pos e)) of
                          Inl x \<Rightarrow> Some (Inl x)
                        | Inr cl \<Rightarrow>
                            Some (Inr (if cl = Treasure then msg_final_success else msg_no_steps,
                                       Some (plan, owner))))
                   | next_dir # rest \<Rightarrow>
                       Some (Inr (msg_action (length rest + 1) next_dir, Some (rest, owner))))))"

section \<open>agent_explorer.py: the loop\<close>

definition sq :: string where
  "sq = [char_of (39 :: nat)]"

definition dq :: string where
  "dq = [char_of (34 :: nat)]"

definition SYSTEM_PROMPT :: string where
  "SYSTEM_PROMPT = concat (map (\<lambda>l. l @ [newline])
     [[],
      ''You are an **Autonomous Explorer Agent** operating in a 5x5 grid world.'',
      ''Your sole goal is to find the '' @ sq @ ''T'' @ sq @ '' (Treasure) and report the SUCCESS message.'',
      ''Your current location is always (R, C). You start at (1, 1).'',
      [],
      ''You MUST build an explicit map in your Thought process based on past Observations.'',
      ''You must use the `update_map` tool to log every unique location and observation to build your persistent memory.'',
      [],
      ''You must follow the **ReAct pattern** (Thought -> Action -> Observation) in a loop.'',
      [],
      ''# Available Tools:'',
      ''# move_agent(direction: str) -> Attempts to move the agent. Directions: NORTH, SOUTH, EAST, or WEST. Returns an OBSERVATION message.'',
      ''# look_around() -> Returns the state of your current location. Useful for verifying the cell type.'',
      ''# update_map(pos: str, observation: str) -> Logs a key-value pair into your memory. Use get_pos() for the '' @ sq @ ''pos'' @ sq @ '' argument.'',
      ''# get_pos() -> Returns your current position as a string tuple, e.g., '' @ sq @ ''(1, 1)'' @ sq @ ''.'',
      [],
      ''# Output Format:'',
      ''Your response MUST strictly use the following format for tool calls:'',
      ''Thought: [Your reasoning based on the map memory and current observation. Why is this the best move?]'',
      ''Action: [Tool Name]'',
      ''Action Input: [Tool Input (MUST be a single string for tool functions)]'',
      [],
      ''If you find the Treasure, the response from move_agent will be '' @ dq @ ''SUCCESS...'' @ dq @ ''. At that point, your final response MUST be:'',
      ''Final Answer: [Report the success and the final path, if possible.]''])"

text \<open>\<^verbatim>\<open>re.search(r"Action:\s*(\w+)", s)\<close>: the first group of the leftmost match.\<close>

fun action_match :: "string \<Rightarrow> string option" where
  "action_match [] = None"
| "action_match (c # cs) =
     (if startswith (c # cs) ''Action:'' \<and>
         takeWhile is_word (dropWhile is_space (drop 7 (c # cs))) \<noteq> []
      then Some (takeWhile is_word (dropWhile is_space (drop 7 (c # cs))))
      else action_match cs)"

text \<open>
  \<^verbatim>\<open>re.search(r"Action Input:\s*(.+)", s)\<close>. After the label the greedy \<^verbatim>\<open>\s*\<close> takes all the
  whitespace and \<^verbatim>\<open>.+\<close> runs to the end of the line; when only whitespace follows the label,
  \<^verbatim>\<open>\s*\<close> gives back characters until \<^verbatim>\<open>.+\<close> can take one that is not a newline.
\<close>

definition input_group :: "string \<Rightarrow> string option" where
  "input_group rest =
     (if dropWhile is_space rest \<noteq> [] then Some (takeWhile (\<lambda>ch. ch \<noteq> newline) (dropWhile is_space rest))
      else (case filter (\<lambda>ch. ch \<noteq> newline) rest of [] \<Rightarrow> None | x # xs \<Rightarrow> Some [last (x # xs)]))"

fun input_match :: "string \<Rightarrow> string option" where
  "input_match [] = None"
| "input_match (c # cs) =
     (if startswith (c # cs) ''Action Input:'' \<and> input_group (drop 13 (c # cs)) \<noteq> None
      then input_group (drop 13 (c # cs))
      else input_match cs)"

text \<open>\<^verbatim>\<open>s.split(',', 1)\<close>: the text before the first comma and, when there is one, the text after it.\<close>

fun split_comma :: "string \<Rightarrow> string \<times> string option" where
  "split_comma [] = ([], None)"
| "split_comma (c # cs) =
     (if c = CHR '','' then ([], Some cs)
      else (case split_comma cs of (a, b) \<Rightarrow> (c # a, b)))"

definition AVAILABLE_TOOLS :: "string list" where
  "AVAILABLE_TOOLS = [''move_agent'', ''look_around'', ''update_map'', ''get_pos'']"

definition msg_tool_error :: "string \<Rightarrow> exn \<Rightarrow> string" where
  "msg_tool_error action x =
     ''TOOL ERROR: Failed to execute tool '' @ sq @ action @ sq @ ''. Error: '' @ str_exn x"

definition msg_unknown_tool :: "string \<Rightarrow> string" where
  "msg_unknown_tool action = ''ERROR: Tool '' @ sq @ action @ sq @ '' not found in AVAILABLE_TOOLS.''"

text \<open>
  The call of a bound method that takes no argument with one argument, which is what
  \<^verbatim>\<open>AVAILABLE_TOOLS[action](action_input)\<close> is for \<^verbatim>\<open>look_around\<close> and \<^verbatim>\<open>get_pos\<close>.
  The text of the \<^verbatim>\<open>TypeError\<close> is the one of CPython 3.10 and later.
\<close>

definition arity_error :: "string \<Rightarrow> exn" where
  "arity_error name =
     TypeError (''SimpleEnvironment.'' @ name @ ''() takes 1 positional argument but 2 were given'')"

text \<open>Lines 163 to 176: the tool call with its \<^verbatim>\<open>try/except\<close>.\<close>

definition dispatch :: "env \<Rightarrow> string \<Rightarrow> string \<Rightarrow> string \<times> env" where
  "dispatch e action action_input =
     (if action \<in> set AVAILABLE_TOOLS then
        (if action = ''update_map'' then
           (case split_comma action_input of
              (p0, p1) \<Rightarrow>
                update_map e (strip p0) (case p1 of Some r \<Rightarrow> strip r | None \<Rightarrow> ''Unknown''))
         else if action = ''move_agent'' then
           (case move_agent e action_input of
              Inl x \<Rightarrow> (msg_tool_error action x, e)
            | Inr r \<Rightarrow> r)
         else (msg_tool_error action (arity_error action), e))
      else (msg_unknown_tool action, e))"

type_synonym message = "string \<times> string"

datatype outcome = Final_Answer | Format_Error | Goal_Found | Budget_Exhausted

datatype step_result = Break outcome | Continue

text \<open>
  The body of the loop from line 140 on, for a given \<^verbatim>\<open>llm_output\<close>. Each \<^verbatim>\<open>break\<close> is named by
  an outcome: \<open>Final_Answer\<close> for line 147, \<open>Format_Error\<close> for line 155 and \<open>Goal_Found\<close>
  for line 187.
\<close>

definition agent_step :: "string \<Rightarrow> message list \<Rightarrow> env \<Rightarrow> step_result \<times> message list \<times> env" where
  "agent_step llm_output h e =
     (let h1 = h @ [(''assistant'', llm_output)]
      in if startswith llm_output ''Final Answer:'' then (Break Final_Answer, h1, e)
         else (case (action_match llm_output, input_match llm_output) of
                 (Some a, Some i) \<Rightarrow>
                   (case dispatch e (strip a) (strip i) of
                      (observation_result, e') \<Rightarrow>
                        (if contains observation_result ''SUCCESS'' then Break Goal_Found else Continue,
                         h1 @ [(''user'', ''Observation: '' @ observation_result)], e'))
               | _ \<Rightarrow> (Break Format_Error, h1, e)))"

record loop_state =
  history :: "message list"
  world :: env
  planner :: cache


definition initial_history :: "message list" where
  "initial_history =
     [(''system'', SYSTEM_PROMPT),
      (''user'', ''Start exploration now. Find the Treasure efficiently.'')]"


declare reconstruct.simps [code]

section \<open>Notions used to state the properties\<close>

text \<open>
  A grid is rectangular when it has a first row and every row is as long as the first; this
  is the shape the scan of \<open>find_targets\<close> and the bounds checks of \<open>move_agent\<close> assume.
\<close>

definition rectangular :: "grid \<Rightarrow> bool" where
  "rectangular g = (g \<noteq> [] \<and> (\<forall>row \<in> set g. length row = length (g ! 0)))"

text \<open>Replaying a list of directions with \<open>move_agent\<close>; the observations come back in order.\<close>

fun replay :: "env \<Rightarrow> string list \<Rightarrow> exn + string list \<times> env" where
  "replay e [] = Inr ([], e)"
| "replay e (d # ds) =
     (case move_agent e d of
        Inl x \<Rightarrow> Inl x
      | Inr (ob, e1) \<Rightarrow>
          (case replay e1 ds of
             Inl x \<Rightarrow> Inl x
           | Inr (obs, e2) \<Rightarrow> Inr (ob # obs, e2)))"

text \<open>The cell \<open>move_agent\<close> ends on, on a rectangular grid.\<close>

definition go :: "grid \<Rightarrow> pos \<Rightarrow> string \<Rightarrow> pos" where
  "go g p d = (case target_cell (upper d) p of None \<Rightarrow> p | Some p' \<Rightarrow> if legal g p' then p' else p)"

text \<open>
  The graph the search walks: an edge leads to each cell that \<open>neighbors\<close> yields, \<open>within\<close>
  is the set of cells at the end of a walk of exactly \<open>n\<close> edges, and \<open>dist\<close> is the length
  of a shortest walk.
\<close>

definition edge :: "grid \<Rightarrow> pos \<Rightarrow> pos \<Rightarrow> bool" where
  "edge g p p' = (p' \<in> fst ` set (neighbors g p))"

fun within :: "grid \<Rightarrow> pos \<Rightarrow> nat \<Rightarrow> pos set" where
  "within g s 0 = {s}"
| "within g s (Suc n) = {p'. \<exists>p \<in> within g s n. edge g p p'}"

definition reachable :: "grid \<Rightarrow> pos \<Rightarrow> pos \<Rightarrow> bool" where
  "reachable g s p = (\<exists>n. p \<in> within g s n)"

definition dist :: "grid \<Rightarrow> pos \<Rightarrow> pos \<Rightarrow> nat" where
  "dist g s p = (LEAST n. p \<in> within g s n)"

text \<open>
  The invariants of the \<^verbatim>\<open>while q\<close> loop. \<open>tree_inv\<close>: the \<^verbatim>\<open>prev\<close> links form a tree rooted at
  the start whose depth is the distance. \<open>queue_inv\<close>: the queue holds visited cells in order
  of distance, spanning at most two levels, every visited cell outside the queue has all its
  neighbours visited, and the target, once visited, is still in the queue.
\<close>

definition tree_inv :: "grid \<Rightarrow> pos \<Rightarrow> bfs_state \<Rightarrow> bool" where
  "tree_inv g s st \<longleftrightarrow>
     prev st s = Some None \<and>
     (\<forall>p. prev st p = Some None \<longrightarrow> p = s) \<and>
     (\<forall>p p0. prev st p = Some (Some p0) \<longrightarrow>
        prev st p0 \<noteq> None \<and> (\<exists>d. prev_move st p = Some d \<and> (p, d) \<in> set (neighbors g p0)) \<and>
        dist g s p = Suc (dist g s p0)) \<and>
     (\<forall>p. prev st p \<noteq> None \<longrightarrow> reachable g s p)"

definition queue_inv :: "grid \<Rightarrow> pos \<Rightarrow> pos \<Rightarrow> bfs_state \<Rightarrow> bool" where
  "queue_inv g s t st \<longleftrightarrow>
     (\<forall>p \<in> set (q st). prev st p \<noteq> None) \<and>
     (\<forall>p p'. prev st p \<noteq> None \<longrightarrow> p \<notin> set (q st) \<longrightarrow> edge g p p' \<longrightarrow> prev st p' \<noteq> None) \<and>
     sorted_wrt (\<lambda>a b. dist g s a \<le> dist g s b) (q st) \<and>
     (\<forall>a \<in> set (q st). \<forall>b \<in> set (q st). dist g s b \<le> Suc (dist g s a)) \<and>
     (prev st t \<noteq> None \<longrightarrow> t \<in> set (q st))"

text \<open>
  The four tools of \<^verbatim>\<open>AVAILABLE_TOOLS\<close> called as methods of the environment, each with the
  arguments its signature takes, and a sequence of such calls; an exception ends the sequence.
  \<open>recorded\<close> is the memory after the \<^verbatim>\<open>update_map\<close> calls of a sequence alone.
\<close>

datatype tool_call = Move string | Look | Record string string | Get_Pos

fun run_tool :: "env \<Rightarrow> tool_call \<Rightarrow> exn + string \<times> env" where
  "run_tool e (Move d) = move_agent e d"
| "run_tool e Look = (case look_around e of Inl x \<Rightarrow> Inl x | Inr ob \<Rightarrow> Inr (ob, e))"
| "run_tool e (Record p ob) = Inr (update_map e p ob)"
| "run_tool e Get_Pos = Inr (get_pos e, e)"

fun run_tools :: "env \<Rightarrow> tool_call list \<Rightarrow> exn + string list \<times> env" where
  "run_tools e [] = Inr ([], e)"
| "run_tools e (c # cs) =
     (case run_tool e c of
        Inl x \<Rightarrow> Inl x
      | Inr (ob, e1) \<Rightarrow>
          (case run_tools e1 cs of
             Inl x \<Rightarrow> Inl x
           | Inr (obs, e2) \<Rightarrow> Inr (ob # obs, e2)))"

fun recorded :: "(string \<times> string) list \<Rightarrow> tool_call list \<Rightarrow> (string \<times> string) list" where
  "recorded m [] = m"
| "recorded m (Record p ob # cs) = recorded (AList.update p ob m) cs"
| "recorded m (c # cs) = recorded m cs"

fun is_move :: "tool_call \<Rightarrow> bool" where
  "is_move (Move d) = True"
| "is_move c = False"


section \<open>Termination of the search\<close>

lemma finite_unvisited: "finite (unvisited g st)"
  by (simp add: unvisited_def cells_def)

lemma neighbors_in_cells: "(n, d) \<in> set (neighbors g p) \<Longrightarrow> n \<in> cells g"
  by (auto simp: neighbors_def legal_def cells_def)

lemma visit_measure:
  "\<forall>(n, d) \<in> set ns. n \<in> cells g \<Longrightarrow> bfs_measure g (visit node st ns) \<le> bfs_measure g st"
proof (induction ns arbitrary: st)
  case Nil
  then show ?case by simp
next
  case (Cons a ns)
  obtain nbr d where a: "a = (nbr, d)" by (cases a)
  let ?st' = "st\<lparr>q := q st @ [nbr], prev := (prev st)(nbr \<mapsto> Some node),
                 prev_move := (prev_move st)(nbr \<mapsto> d)\<rparr>"
  show ?case
  proof (cases "prev st nbr = None")
    case True
    have in_c: "nbr \<in> cells g" using Cons.prems a by simp
    have eq: "unvisited g ?st' = unvisited g st - {nbr}"
      by (auto simp: unvisited_def)
    have mem: "nbr \<in> unvisited g st" using True in_c by (simp add: unvisited_def)
    have "card (unvisited g ?st') = card (unvisited g st) - 1"
      using eq mem finite_unvisited by simp
    moreover have "card (unvisited g st) > 0"
      using mem finite_unvisited [of g st] by (auto simp: card_gt_0_iff)
    ultimately have "bfs_measure g ?st' \<le> bfs_measure g st"
      by (simp add: bfs_measure_def)
    moreover have "bfs_measure g (visit node ?st' ns) \<le> bfs_measure g ?st'"
      using Cons.IH [of ?st'] Cons.prems by simp
    ultimately show ?thesis using True a by simp
  next
    case False
    then have "visit node st (a # ns) = visit node st ns" using a by auto
    then show ?thesis using Cons.IH [of st] Cons.prems by simp
  qed
qed

termination bfs
proof (relation "measure (\<lambda>(g, target, st). bfs_measure g st)")
  show "wf (measure (\<lambda>(g, target, st). bfs_measure g st))" by simp
next
  fix g :: grid and target :: pos and st :: bfs_state and node rest
  assume qs: "q st = node # rest" and "node \<noteq> target"
  have "bfs_measure g (visit node (st\<lparr>q := rest\<rparr>) (neighbors g node)) \<le> bfs_measure g (st\<lparr>q := rest\<rparr>)"
    by (rule visit_measure) (auto dest: neighbors_in_cells)
  also have "\<dots> < bfs_measure g st"
    using qs by (simp add: bfs_measure_def unvisited_def)
  finally show "((g, target, visit node (st\<lparr>q := rest\<rparr>) (neighbors g node)), (g, target, st))
      \<in> measure (\<lambda>(g, target, st). bfs_measure g st)"
    by simp
qed



section \<open>Shortest walks\<close>

lemma dist_le: "p \<in> within g s n \<Longrightarrow> dist g s p \<le> n"
  by (simp add: dist_def Least_le)

lemma dist_in: "reachable g s p \<Longrightarrow> p \<in> within g s (dist g s p)"
  unfolding reachable_def dist_def by (erule exE) (rule LeastI)

lemma reachable_start: "reachable g s s"
  unfolding reachable_def by (rule exI [of _ 0]) simp

lemma dist_start: "dist g s s = 0"
  using dist_le [of s g s 0] by simp

lemma reachable_step: "reachable g s p \<Longrightarrow> edge g p p' \<Longrightarrow> reachable g s p'"
  unfolding reachable_def
proof (erule exE)
  fix n assume "p \<in> within g s n" "edge g p p'"
  then have "p' \<in> within g s (Suc n)" by auto
  then show "\<exists>n. p' \<in> within g s n" by blast
qed

lemma dist_step: "reachable g s p \<Longrightarrow> edge g p p' \<Longrightarrow> dist g s p' \<le> Suc (dist g s p)"
proof -
  assume "reachable g s p" "edge g p p'"
  then have "\<exists>p0 \<in> within g s (dist g s p). edge g p0 p'" using dist_in by blast
  then have "p' \<in> within g s (Suc (dist g s p))" by simp
  then show ?thesis by (rule dist_le)
qed

lemma dist_zero: "reachable g s p \<Longrightarrow> dist g s p = 0 \<Longrightarrow> p = s"
  using dist_in [of g s p] by simp

lemma dist_pred:
  assumes "reachable g s p" "dist g s p = Suc k"
  shows "\<exists>p0. reachable g s p0 \<and> edge g p0 p \<and> dist g s p0 = k"
proof -
  from assms have "p \<in> within g s (Suc k)" using dist_in by metis
  then obtain p0 where p0: "p0 \<in> within g s k" "edge g p0 p" by auto
  then have r: "reachable g s p0" by (auto simp: reachable_def)
  have "dist g s p0 \<le> k" using p0 dist_le by simp
  moreover have "Suc k \<le> Suc (dist g s p0)" using dist_step [OF r p0(2)] assms(2) by simp
  ultimately have "dist g s p0 = k" by simp
  then show ?thesis using r p0(2) by blast
qed

lemma visit_prev:
  "prev (visit node st ns) p =
     (if prev st p = None \<and> p \<in> fst ` set ns then Some (Some node) else prev st p)"
proof (induction ns arbitrary: st)
  case Nil
  then show ?case by simp
next
  case (Cons a ns)
  obtain nbr d where a: "a = (nbr, d)" by (cases a)
  show ?case
    unfolding a visit.simps Cons.IH by (cases "p = nbr") force+
qed

lemma visit_q:
  "\<exists>new. q (visit node st ns) = q st @ new \<and> set new = {p \<in> fst ` set ns. prev st p = None}"
proof (induction ns arbitrary: st)
  case Nil
  then show ?case by simp
next
  case (Cons a ns)
  obtain nbr d where a: "a = (nbr, d)" by (cases a)
  let ?st' = "st\<lparr>q := q st @ [nbr], prev := (prev st)(nbr \<mapsto> Some node),
                 prev_move := (prev_move st)(nbr \<mapsto> d)\<rparr>"
  show ?case
  proof (cases "prev st nbr = None")
    case True
    from Cons.IH [of ?st'] obtain new where
      new: "q (visit node ?st' ns) = q ?st' @ new" "set new = {p \<in> fst ` set ns. prev ?st' p = None}"
      by blast
    have "q (visit node st (a # ns)) = q st @ (nbr # new)" using a True new(1) by simp
    moreover have "set (nbr # new) = {p \<in> fst ` set (a # ns). prev st p = None}"
      using a True new(2) by auto
    ultimately show ?thesis by blast
  next
    case False
    from Cons.IH [of st] obtain new where
      new: "q (visit node st ns) = q st @ new" "set new = {p \<in> fst ` set ns. prev st p = None}"
      by blast
    have "visit node st (a # ns) = visit node st ns" using a False by auto
    moreover have "{p \<in> fst ` set (a # ns). prev st p = None} = {p \<in> fst ` set ns. prev st p = None}"
      using a False by auto
    ultimately show ?thesis using new by auto
  qed
qed

lemma visit_move_old:
  "prev st p \<noteq> None \<or> p \<notin> fst ` set ns \<Longrightarrow> prev_move (visit node st ns) p = prev_move st p"
proof (induction ns arbitrary: st)
  case Nil
  then show ?case by simp
next
  case (Cons a ns)
  obtain nbr d where a: "a = (nbr, d)" by (cases a)
  have "prev_move (visit node st (a # ns)) p =
        prev_move (if prev st nbr = None
            then st\<lparr>q := q st @ [nbr], prev := (prev st)(nbr \<mapsto> Some node),
                    prev_move := (prev_move st)(nbr \<mapsto> d)\<rparr>
            else st) p"
    unfolding a visit.simps
  proof (rule Cons.IH)
    show "prev (if prev st nbr = None
            then st\<lparr>q := q st @ [nbr], prev := (prev st)(nbr \<mapsto> Some node),
                    prev_move := (prev_move st)(nbr \<mapsto> d)\<rparr>
            else st) p \<noteq> None \<or> p \<notin> fst ` set ns"
      using Cons.prems a by (cases "prev st nbr = None"; cases "p = nbr") auto
  qed
  also have "\<dots> = prev_move st p"
    using Cons.prems a by (cases "prev st nbr = None"; cases "p = nbr") auto
  finally show ?case .
qed

lemma visit_move_new:
  "prev st p = None \<Longrightarrow> p \<in> fst ` set ns \<Longrightarrow>
   \<exists>d. prev_move (visit node st ns) p = Some d \<and> (p, d) \<in> set ns"
proof (induction ns arbitrary: st)
  case Nil
  then show ?case by simp
next
  case (Cons a ns)
  obtain nbr d where a: "a = (nbr, d)" by (cases a)
  let ?st' = "st\<lparr>q := q st @ [nbr], prev := (prev st)(nbr \<mapsto> Some node),
                 prev_move := (prev_move st)(nbr \<mapsto> d)\<rparr>"
  show ?case
  proof (cases "prev st nbr = None")
    case True
    show ?thesis
    proof (cases "p = nbr")
      case eq: True
      have "prev_move (visit node ?st' ns) p = prev_move ?st' p"
        by (rule visit_move_old) (simp add: eq)
      then show ?thesis using a True eq by simp
    next
      case ne: False
      then have "p \<in> fst ` set ns" using Cons.prems a by auto
      moreover have "prev ?st' p = None" using ne Cons.prems by simp
      ultimately obtain d' where "prev_move (visit node ?st' ns) p = Some d'" "(p, d') \<in> set ns"
        using Cons.IH [of ?st'] by blast
      then show ?thesis using a True by auto
    qed
  next
    case False
    then have v: "visit node st (a # ns) = visit node st ns" using a by auto
    have "p \<noteq> nbr" using False Cons.prems by auto
    then have "p \<in> fst ` set ns" using Cons.prems a by auto
    then obtain d' where "prev_move (visit node st ns) p = Some d'" "(p, d') \<in> set ns"
      using Cons.IH [of st] Cons.prems by blast
    then show ?thesis using v by auto
  qed
qed

lemma near_visited:
  assumes tr: "tree_inv g s st" and qu: "queue_inv g s t st" and qs: "q st = node # rest"
  shows "reachable g s p \<Longrightarrow> dist g s p \<le> dist g s node \<Longrightarrow> prev st p \<noteq> None"
proof (induction k \<equiv> "dist g s p" arbitrary: p)
  case 0
  then have "p = s" using dist_zero by simp
  then show ?case using tr by (simp add: tree_inv_def)
next
  case (Suc k)
  from dist_pred [OF Suc.prems(1) Suc.hyps(2) [symmetric]]
  obtain p0 where p0: "reachable g s p0" "edge g p0 p" "dist g s p0 = k" by blast
  have lt: "dist g s p0 < dist g s node" using p0(3) Suc.hyps(2) Suc.prems(2) by simp
  have v0: "prev st p0 \<noteq> None"
    using Suc.hyps(1) [of p0] p0 lt by simp
  have "\<forall>b \<in> set (q st). dist g s node \<le> dist g s b"
    using qu qs by (auto simp: queue_inv_def)
  then have "p0 \<notin> set (q st)" using lt by auto
  then show ?case using qu v0 p0(2) unfolding queue_inv_def by blast
qed

lemma inv_step:
  assumes tr: "tree_inv g s st" and qu: "queue_inv g s t st"
    and qs: "q st = node # rest" and nt: "node \<noteq> t"
  defines "st' \<equiv> visit node (st\<lparr>q := rest\<rparr>) (neighbors g node)"
  shows "tree_inv g s st' \<and> queue_inv g s t st'"
proof -
  have pv: "\<And>p. prev st' p = (if prev st p = None \<and> edge g node p then Some (Some node) else prev st p)"
    unfolding st'_def visit_prev edge_def by simp
  obtain new where new: "q st' = rest @ new" "set new = {p. edge g node p \<and> prev st p = None}"
    using visit_q [of node "st\<lparr>q := rest\<rparr>" "neighbors g node"]
    unfolding st'_def edge_def by auto
  have mo: "\<And>p. prev st p \<noteq> None \<or> \<not> edge g node p \<Longrightarrow> prev_move st' p = prev_move st p"
    using visit_move_old [of "st\<lparr>q := rest\<rparr>" _ "neighbors g node" node]
    unfolding st'_def edge_def by simp
  have mn: "\<And>p. prev st p = None \<Longrightarrow> edge g node p \<Longrightarrow>
               \<exists>d. prev_move st' p = Some d \<and> (p, d) \<in> set (neighbors g node)"
    using visit_move_new [of "st\<lparr>q := rest\<rparr>" _ "neighbors g node" node]
    unfolding st'_def edge_def by simp
  have vn: "prev st node \<noteq> None" using qu qs by (simp add: queue_inv_def)
  have rn: "reachable g s node" using tr vn unfolding tree_inv_def by blast
  have hd_min: "\<And>b. b \<in> set (q st) \<Longrightarrow> dist g s node \<le> dist g s b"
    using qu qs by (auto simp: queue_inv_def)
  have near: "\<And>a b. a \<in> set (q st) \<Longrightarrow> b \<in> set (q st) \<Longrightarrow> dist g s b \<le> Suc (dist g s a)"
    using qu by (simp add: queue_inv_def)
  have dn: "dist g s p = Suc (dist g s node)" if "edge g node p" "prev st p = None" for p
  proof -
    have rp: "reachable g s p" using rn that(1) by (rule reachable_step)
    have le: "dist g s p \<le> Suc (dist g s node)" using rn that(1) by (rule dist_step)
    have "\<not> dist g s p \<le> dist g s node"
      using near_visited [OF tr qu qs rp] that(2) by blast
    then show ?thesis using le by simp
  qed
  have t1: "prev st' s = Some None" using tr pv by (simp add: tree_inv_def)
  have t2: "\<forall>p. prev st' p = Some None \<longrightarrow> p = s"
    using tr pv by (auto simp: tree_inv_def split: if_splits)
  have t3: "\<forall>p p0. prev st' p = Some (Some p0) \<longrightarrow>
        prev st' p0 \<noteq> None \<and> (\<exists>d. prev_move st' p = Some d \<and> (p, d) \<in> set (neighbors g p0)) \<and>
        dist g s p = Suc (dist g s p0)"
  proof (intro allI impI)
    fix p p0 assume a: "prev st' p = Some (Some p0)"
    show "prev st' p0 \<noteq> None \<and> (\<exists>d. prev_move st' p = Some d \<and> (p, d) \<in> set (neighbors g p0)) \<and>
        dist g s p = Suc (dist g s p0)"
    proof (cases "prev st p = None \<and> edge g node p")
      case True
      then have "p0 = node" using a pv by simp
      moreover have "prev st' node \<noteq> None" using vn pv by simp
      ultimately show ?thesis using True mn dn by simp
    next
      case False
      then have old: "prev st p = Some (Some p0)" using a pv [of p] by (auto split: if_splits)
      then have "prev st p0 \<noteq> None" using tr unfolding tree_inv_def by blast
      then have "prev st' p0 \<noteq> None" using pv by simp
      moreover have "prev_move st' p = prev_move st p" using mo old by simp
      ultimately show ?thesis using tr old unfolding tree_inv_def by metis
    qed
  qed
  have t4: "\<forall>p. prev st' p \<noteq> None \<longrightarrow> reachable g s p"
  proof (intro allI impI)
    fix p assume a: "prev st' p \<noteq> None"
    show "reachable g s p"
    proof (cases "prev st p = None \<and> edge g node p")
      case True
      then show ?thesis using reachable_step [OF rn] by blast
    next
      case False
      then have "prev st p \<noteq> None" using a pv [of p] by (auto split: if_splits)
      then show ?thesis using tr unfolding tree_inv_def by blast
    qed
  qed
  have q1: "\<forall>p \<in> set (q st'). prev st' p \<noteq> None"
    using new pv qu qs by (auto simp: queue_inv_def)
  have q2: "\<forall>p p'. prev st' p \<noteq> None \<longrightarrow> p \<notin> set (q st') \<longrightarrow> edge g p p' \<longrightarrow> prev st' p' \<noteq> None"
  proof (intro allI impI)
    fix p p' assume a: "prev st' p \<noteq> None" "p \<notin> set (q st')" "edge g p p'"
    have old: "prev st p \<noteq> None"
    proof (rule ccontr)
      assume "\<not> prev st p \<noteq> None"
      then have "prev st p = None \<and> edge g node p" using a(1) pv [of p] by (auto split: if_splits)
      then have "p \<in> set new" using new(2) by simp
      then show False using a(2) new(1) by simp
    qed
    show "prev st' p' \<noteq> None"
    proof (cases "p = node")
      case True
      then show ?thesis using a(3) pv [of p'] by auto
    next
      case False
      then have "p \<notin> set (q st)" using a(2) new(1) qs by simp
      then have "prev st p' \<noteq> None" using qu old a(3) unfolding queue_inv_def by blast
      then show ?thesis using pv [of p'] by simp
    qed
  qed
  have dnew: "\<And>b. b \<in> set new \<Longrightarrow> dist g s b = Suc (dist g s node)"
    using new(2) dn by simp
  have srest: "sorted_wrt (\<lambda>a b. dist g s a \<le> dist g s b) rest"
    using qu qs by (simp add: queue_inv_def)
  have snew: "sorted_wrt (\<lambda>a b. dist g s a \<le> dist g s b) new"
    using dnew by (simp add: sorted_wrt_iff_nth_less)
  have cross: "\<And>a b. a \<in> set rest \<Longrightarrow> b \<in> set new \<Longrightarrow> dist g s a \<le> dist g s b"
    using near [of node] qs dnew by simp
  have q3: "sorted_wrt (\<lambda>a b. dist g s a \<le> dist g s b) (q st')"
    using new(1) srest snew cross by (simp add: sorted_wrt_append)
  have q4: "\<forall>a \<in> set (q st'). \<forall>b \<in> set (q st'). dist g s b \<le> Suc (dist g s a)"
  proof (intro ballI)
    fix a b assume ab: "a \<in> set (q st')" "b \<in> set (q st')"
    have ca: "a \<in> set rest \<or> a \<in> set new" using ab(1) new(1) by simp
    have cb: "b \<in> set rest \<or> b \<in> set new" using ab(2) new(1) by simp
    have ra: "a \<in> set rest \<Longrightarrow> dist g s node \<le> dist g s a" using hd_min qs by simp
    have rb: "b \<in> set rest \<Longrightarrow> dist g s b \<le> Suc (dist g s node)" using near [of node b] qs by simp
    have rr: "a \<in> set rest \<Longrightarrow> b \<in> set rest \<Longrightarrow> dist g s b \<le> Suc (dist g s a)"
      using near [of a b] qs by simp
    show "dist g s b \<le> Suc (dist g s a)"
      using ca cb ra rb rr dnew [of a] dnew [of b] by linarith
  qed
  have q5: "prev st' t \<noteq> None \<longrightarrow> t \<in> set (q st')"
  proof
    assume a: "prev st' t \<noteq> None"
    show "t \<in> set (q st')"
    proof (cases "prev st t = None")
      case True
      then have "edge g node t" using a pv [of t] by (auto split: if_splits)
      then show ?thesis using True new by simp
    next
      case False
      then have "t \<in> set (q st)" using qu by (simp add: queue_inv_def)
      then show ?thesis using qs nt new(1) by auto
    qed
  qed
  show ?thesis
    unfolding tree_inv_def queue_inv_def using t1 t2 t3 t4 q1 q2 q3 q4 q5 by blast
qed

lemma inv_init:
  "tree_inv g s \<lparr>q = [s], prev = [s \<mapsto> None], prev_move = Map.empty\<rparr> \<and>
   queue_inv g s t \<lparr>q = [s], prev = [s \<mapsto> None], prev_move = Map.empty\<rparr>"
  by (simp add: tree_inv_def queue_inv_def reachable_start)

lemma closed_all_visited:
  assumes tr: "tree_inv g s st" and qu: "queue_inv g s t st" and qe: "q st = []"
  shows "p \<in> within g s n \<Longrightarrow> prev st p \<noteq> None"
proof (induction n arbitrary: p)
  case 0
  then show ?case using tr by (simp add: tree_inv_def)
next
  case (Suc n)
  then obtain p0 where "p0 \<in> within g s n" "edge g p0 p" by auto
  then have "prev st p0 \<noteq> None" "p0 \<notin> set (q st)" "edge g p0 p"
    using Suc.IH [of p0] qe by simp_all
  then show ?case using qu unfolding queue_inv_def by blast
qed

lemma bfs_result:
  "tree_inv g s st \<Longrightarrow> queue_inv g s t st \<Longrightarrow> bfs g t st = (found, st') \<Longrightarrow>
   tree_inv g s st' \<and> (found \<longrightarrow> prev st' t \<noteq> None) \<and> (\<not> found \<longrightarrow> \<not> reachable g s t)"
proof (induction g t st rule: bfs.induct)
  case (1 g t st)
  show ?case
  proof (cases "q st")
    case Nil
    then have r: "found = False" "st' = st" using "1.prems"(3) by simp_all
    have "\<not> reachable g s t"
    proof
      assume "reachable g s t"
      then obtain n where "t \<in> within g s n" by (auto simp: reachable_def)
      then have "prev st t \<noteq> None" using closed_all_visited [OF "1.prems"(1,2) Nil] by blast
      then show False using "1.prems"(2) Nil by (simp add: queue_inv_def)
    qed
    then show ?thesis using r "1.prems"(1) by simp
  next
    case (Cons node rest)
    show ?thesis
    proof (cases "node = t")
      case True
      then have r: "found = True" "st' = st\<lparr>q := rest\<rparr>" using "1.prems"(3) Cons by simp_all
      have "prev st t \<noteq> None" using "1.prems"(2) Cons True by (simp add: queue_inv_def)
      moreover have "tree_inv g s (st\<lparr>q := rest\<rparr>)" using "1.prems"(1) by (simp add: tree_inv_def)
      ultimately show ?thesis using r by simp
    next
      case False
      have step: "tree_inv g s (visit node (st\<lparr>q := rest\<rparr>) (neighbors g node)) \<and>
                  queue_inv g s t (visit node (st\<lparr>q := rest\<rparr>) (neighbors g node))"
        using inv_step [OF "1.prems"(1,2) Cons False] .
      have "bfs g t (visit node (st\<lparr>q := rest\<rparr>) (neighbors g node)) = (found, st')"
        using "1.prems"(3) Cons False by simp
      then show ?thesis using "1.IH" [OF Cons False] step by blast
    qed
  qed
qed

section \<open>Moves on a rectangular grid\<close>

lemma rect_nonempty: "rectangular g \<Longrightarrow> g \<noteq> []"
  unfolding rectangular_def by blast

lemma rect_row: "rectangular g \<Longrightarrow> i < length g \<Longrightarrow> length (g ! i) = length (g ! 0)"
  unfolding rectangular_def using nth_mem by blast

lemma grid_at_rect:
  assumes "rectangular g" "0 \<le> r" "r < int (length g)" "0 \<le> c" "c < int (length (g ! 0))"
  shows "grid_at g r c = Inr (g ! nat r ! nat c)"
proof -
  have "nat r < length g" using assms(2,3) by linarith
  then have "length (g ! nat r) = length (g ! 0)" using assms(1) by (rule rect_row [rotated])
  then show ?thesis using assms(2-5) by (simp add: grid_at_def py_index_def)
qed

lemma move_agent_rect:
  assumes "rectangular (grid e)"
  shows "move_agent e d =
     (case target_cell (upper d) (agent_pos e) of
        None \<Rightarrow> Inr (msg_invalid, e)
      | Some p' \<Rightarrow>
          if legal (grid e) p'
          then Inr (if grid e ! nat (fst p') ! nat (snd p') = Treasure then msg_success else msg_moved p',
                    e\<lparr>agent_pos := p'\<rparr>)
          else Inr (msg_blocked, e))"
proof (cases "target_cell (upper d) (agent_pos e)")
  case None
  then show ?thesis by (simp add: move_agent_def)
next
  case (Some p')
  obtain r c where p': "p' = (r, c)" by (cases p')
  have ne: "grid e \<noteq> []" using assms by (rule rect_nonempty)
  then have i0: "py_index (grid e) 0 = Inr (grid e ! 0)" by (simp add: py_index_def)
  show ?thesis
  proof (cases "0 \<le> r \<and> r < int (length (grid e)) \<and> 0 \<le> c \<and> c < int (length (grid e ! 0))")
    case True
    then have "grid_at (grid e) r c = Inr (grid e ! nat r ! nat c)"
      using grid_at_rect [OF assms] by simp
    then show ?thesis using Some p' i0 True by (simp add: move_agent_def legal_def)
  next
    case False
    then show ?thesis using Some p' i0 by (auto simp: move_agent_def legal_def)
  qed
qed

lemma neighbors_iff:
  "(p', d) \<in> set (neighbors g p) \<longleftrightarrow> target_cell d p = Some p' \<and> legal g p'"
  by (auto simp: neighbors_def offsets_def target_cell_def)

lemma neighbors_dir:
  "(p', d) \<in> set (neighbors g p) \<Longrightarrow> d \<in> {''NORTH'', ''SOUTH'', ''EAST'', ''WEST''}"
proof -
  assume "(p', d) \<in> set (neighbors g p)"
  then have "target_cell d p \<noteq> None" by (simp add: neighbors_iff)
  then show ?thesis unfolding target_cell_def by (simp split: if_splits)
qed

lemma upper_NORTH: "upper ''NORTH'' = ''NORTH''" by (simp add: upper_def upper_char_def)

lemma upper_SOUTH: "upper ''SOUTH'' = ''SOUTH''" by (simp add: upper_def upper_char_def)

lemma upper_EAST: "upper ''EAST'' = ''EAST''" by (simp add: upper_def upper_char_def)

lemma upper_WEST: "upper ''WEST'' = ''WEST''" by (simp add: upper_def upper_char_def)

lemma target_cell_upper: "target_cell d p = Some p' \<Longrightarrow> upper d = d"
  unfolding target_cell_def using upper_NORTH upper_SOUTH upper_EAST upper_WEST
  by (auto split: if_splits)

lemma go_neighbor: "(p', d) \<in> set (neighbors g p) \<Longrightarrow> go g p d = p'"
proof -
  assume "(p', d) \<in> set (neighbors g p)"
  then have a: "target_cell d p = Some p'" "legal g p'" by (simp_all add: neighbors_iff)
  then have "upper d = d" by (simp add: target_cell_upper)
  then show ?thesis using a by (simp add: go_def)
qed

lemma go_cases: "go g p d = p \<or> edge g p (go g p d)"
proof (cases "target_cell (upper d) p")
  case None
  then show ?thesis by (simp add: go_def)
next
  case (Some p')
  show ?thesis
  proof (cases "legal g p'")
    case True
    then have "(p', upper d) \<in> set (neighbors g p)" using Some by (simp add: neighbors_iff)
    then have "edge g p p'" unfolding edge_def by force
    then show ?thesis using Some True by (simp add: go_def)
  next
    case False
    then show ?thesis using Some by (simp add: go_def)
  qed
qed

lemma move_agent_go:
  "rectangular (grid e) \<Longrightarrow> \<exists>ob. move_agent e d = Inr (ob, e\<lparr>agent_pos := go (grid e) (agent_pos e) d\<rparr>)"
  by (simp add: move_agent_rect go_def split: option.splits)

lemma replay_go:
  "rectangular (grid e) \<Longrightarrow>
   \<exists>obs. replay e ds = Inr (obs, e\<lparr>agent_pos := foldl (go (grid e)) (agent_pos e) ds\<rparr>) \<and>
         length obs = length ds"
proof (induction ds arbitrary: e)
  case Nil
  then show ?case by simp
next
  case (Cons d ds)
  let ?e1 = "e\<lparr>agent_pos := go (grid e) (agent_pos e) d\<rparr>"
  obtain ob where ob: "move_agent e d = Inr (ob, ?e1)" using move_agent_go [OF Cons.prems] by blast
  have "rectangular (grid ?e1)" using Cons.prems by simp
  from Cons.IH [OF this] obtain obs where
    "replay ?e1 ds = Inr (obs, ?e1\<lparr>agent_pos := foldl (go (grid ?e1)) (agent_pos ?e1) ds\<rparr>)"
    "length obs = length ds" by blast
  then show ?case using ob by simp
qed

lemma foldl_go_within: "\<exists>n \<le> length ds. foldl (go g) s ds \<in> within g s n"
proof (induction ds rule: rev_induct)
  case Nil
  then show ?case by simp
next
  case (snoc d ds)
  then obtain n where n: "n \<le> length ds" "foldl (go g) s ds \<in> within g s n" by blast
  let ?p = "foldl (go g) s ds"
  from go_cases [of g ?p d] show ?case
  proof
    assume "go g ?p d = ?p"
    then show ?thesis using n by (auto intro!: exI [of _ n])
  next
    assume "edge g ?p (go g ?p d)"
    then have "go g ?p d \<in> within g s (Suc n)" using n(2) by auto
    then show ?thesis using n(1) by (auto intro!: exI [of _ "Suc n"])
  qed
qed

lemma foldl_go_dist: "dist g s (foldl (go g) s ds) \<le> length ds"
proof -
  obtain n where n: "n \<le> length ds" "foldl (go g) s ds \<in> within g s n"
    using foldl_go_within [of ds g s] by blast
  have "dist g s (foldl (go g) s ds) \<le> n" using n(2) by (rule dist_le)
  then show ?thesis using n(1) by simp
qed

lemma foldl_go_reachable: "reachable g s (foldl (go g) s ds)"
proof -
  obtain n where "foldl (go g) s ds \<in> within g s n"
    using foldl_go_within [of ds g s] by blast
  then show ?thesis unfolding reachable_def by (rule exI)
qed

lemma reconstruct_tree:
  assumes tr: "tree_inv g s st"
  shows "prev st p \<noteq> None \<Longrightarrow>
     \<exists>ds. reconstruct (prev st) (prev_move st) p acc = Some (Inr (acc @ ds)) \<and>
          length ds = dist g s p \<and> foldl (go g) s (rev ds) = p \<and>
          set ds \<subseteq> {''NORTH'', ''SOUTH'', ''EAST'', ''WEST''}"
proof (induction k \<equiv> "dist g s p" arbitrary: p acc)
  case 0
  show ?case
  proof (cases "prev st p")
    case None
    then show ?thesis using "0.prems" by simp
  next
    case (Some a)
    show ?thesis
    proof (cases a)
      case None
      then have "p = s" using tr Some unfolding tree_inv_def by blast
      then show ?thesis using Some None "0.hyps" by (subst reconstruct.simps) simp
    next
      case (Some p0)
      then have "dist g s p = Suc (dist g s p0)" using tr \<open>prev st p = Some a\<close> unfolding tree_inv_def by blast
      then show ?thesis using "0.hyps" by simp
    qed
  qed
next
  case (Suc k)
  show ?case
  proof (cases "prev st p")
    case None
    then show ?thesis using Suc.prems by simp
  next
    case (Some a)
    show ?thesis
    proof (cases a)
      case None
      then have "p = s" using tr Some unfolding tree_inv_def by blast
      then show ?thesis using Suc.hyps(2) dist_start [of g s] by simp
    next
      case inner: (Some p0)
      have pp: "prev st p = Some (Some p0)" using Some inner by simp
      then obtain d where d: "prev st p0 \<noteq> None" "prev_move st p = Some d"
          "(p, d) \<in> set (neighbors g p0)" "dist g s p = Suc (dist g s p0)"
        using tr unfolding tree_inv_def by blast
      have "k = dist g s p0" using d(4) Suc.hyps(2) by simp
      from Suc.hyps(1) [OF this d(1), of "acc @ [d]"] obtain ds where ds:
        "reconstruct (prev st) (prev_move st) p0 (acc @ [d]) = Some (Inr ((acc @ [d]) @ ds))"
        "length ds = dist g s p0" "foldl (go g) s (rev ds) = p0"
        "set ds \<subseteq> {''NORTH'', ''SOUTH'', ''EAST'', ''WEST''}" by blast
      have "reconstruct (prev st) (prev_move st) p acc = Some (Inr (acc @ (d # ds)))"
        using pp d(2) ds(1) by (subst reconstruct.simps) simp
      moreover have "length (d # ds) = dist g s p" using ds(2) d(4) by simp
      moreover have "foldl (go g) s (rev (d # ds)) = p" using ds(3) go_neighbor [OF d(3)] by simp
      moreover have "set (d # ds) \<subseteq> {''NORTH'', ''SOUTH'', ''EAST'', ''WEST''}"
        using ds(4) neighbors_dir [OF d(3)] by simp
      ultimately show ?thesis by blast
    qed
  qed
qed

lemma path_dirs_reachable:
  assumes "reachable g s t"
  shows "\<exists>ds. path_dirs g s t = Some (Inr (Some ds)) \<and> length ds = dist g s t \<and>
              foldl (go g) s ds = t \<and> set ds \<subseteq> {''NORTH'', ''SOUTH'', ''EAST'', ''WEST''}"
proof -
  let ?st0 = "\<lparr>q = [s], prev = [s \<mapsto> None], prev_move = Map.empty\<rparr>"
  obtain found st' where b: "bfs g t ?st0 = (found, st')" by (cases "bfs g t ?st0")
  from bfs_result [OF _ _ b] inv_init [of g s t]
  have r: "tree_inv g s st'" "found \<longrightarrow> prev st' t \<noteq> None" "\<not> found \<longrightarrow> \<not> reachable g s t"
    by blast+
  then have f: "found" "prev st' t \<noteq> None" using assms by auto
  from reconstruct_tree [OF r(1) f(2), of "[]"] obtain ds where ds:
    "reconstruct (prev st') (prev_move st') t [] = Some (Inr ds)" "length ds = dist g s t"
    "foldl (go g) s (rev ds) = t" "set ds \<subseteq> {''NORTH'', ''SOUTH'', ''EAST'', ''WEST''}" by auto
  have "path_dirs g s t = Some (Inr (Some (rev ds)))"
    using b f(1) ds(1) by (simp add: path_dirs_def)
  then show ?thesis using ds(2,3,4) by simp
qed


section \<open>Tool calls\<close>

lemma move_agent_frame:
  "move_agent e d = Inr (ob, e') \<Longrightarrow> grid e' = grid e \<and> map_memory e' = map_memory e"
  unfolding move_agent_def
  by (auto split: option.splits if_splits sum.splits prod.splits)

lemma run_tool_frame:
  assumes "run_tool e c = Inr (ob, e')"
  shows "grid e' = grid e \<and> map_memory e' = recorded (map_memory e) [c] \<and>
   (\<not> is_move c \<longrightarrow> agent_pos e' = agent_pos e)"
proof (cases c)
  case (Move d)
  then show ?thesis using assms move_agent_frame [of e d ob e'] by simp
next
  case Look
  then show ?thesis using assms by (auto split: sum.splits)
next
  case (Record p x)
  then show ?thesis using assms by (auto simp: update_map_def)
next
  case Get_Pos
  then show ?thesis using assms by auto
qed

lemma recorded_Cons: "recorded m (c # cs) = recorded (recorded m [c]) cs"
  by (cases c) simp_all

lemma run_tools_frame:
  "run_tools e cs = Inr (obs, e') \<Longrightarrow>
   grid e' = grid e \<and> map_memory e' = recorded (map_memory e) cs \<and>
   ((\<forall>c \<in> set cs. \<not> is_move c) \<longrightarrow> agent_pos e' = agent_pos e)"
proof (induction cs arbitrary: e obs)
  case Nil
  then show ?case by simp
next
  case (Cons c cs)
  from Cons.prems obtain ob e1 obs1 where
    s1: "run_tool e c = Inr (ob, e1)" and s2: "run_tools e1 cs = Inr (obs1, e')"
    by (auto split: sum.splits prod.splits)
  from run_tool_frame [OF s1] Cons.IH [OF s2] recorded_Cons [of "map_memory e" c cs]
  show ?case by simp
qed

lemma recorded_queries: "set cs \<subseteq> {Look, Get_Pos} \<Longrightarrow> recorded m cs = m"
  by (induction cs) auto

lemma rectangular_grid0: "rectangular grid0"
  by (simp add: rectangular_def grid0_def)

lemma legal_start: "legal grid0 (1, 1)"
  by (simp add: legal_def grid0_def)

lemma run_tool_legal:
  assumes "rectangular (grid e)" "legal (grid e) (agent_pos e)"
  shows "\<exists>ob e'. run_tool e c = Inr (ob, e') \<and> grid e' = grid e \<and> legal (grid e') (agent_pos e')"
proof (cases c)
  case (Move d)
  show ?thesis
    using assms Move by (auto simp: move_agent_rect split: option.splits)
next
  case Look
  have "grid_at (grid e) (fst (agent_pos e)) (snd (agent_pos e)) =
        Inr (grid e ! nat (fst (agent_pos e)) ! nat (snd (agent_pos e)))"
    using assms by (intro grid_at_rect) (simp_all add: legal_def)
  then show ?thesis using Look assms(2) by (simp add: look_around_def)
next
  case (Record p x)
  then show ?thesis using assms by (simp add: update_map_def)
next
  case Get_Pos
  then show ?thesis using assms by simp
qed

lemma run_tools_legal:
  "rectangular (grid e) \<Longrightarrow> legal (grid e) (agent_pos e) \<Longrightarrow>
   \<exists>obs e'. run_tools e cs = Inr (obs, e') \<and> grid e' = grid e \<and> legal (grid e') (agent_pos e')"
proof (induction cs arbitrary: e)
  case Nil
  then show ?case by simp
next
  case (Cons c cs)
  from run_tool_legal [OF Cons.prems, of c] obtain ob e1 where
    s1: "run_tool e c = Inr (ob, e1)" "grid e1 = grid e" "legal (grid e1) (agent_pos e1)" by blast
  from Cons.IH [of e1] s1 Cons.prems(1) obtain obs e' where
    "run_tools e1 cs = Inr (obs, e')" "grid e' = grid e1" "legal (grid e') (agent_pos e')" by auto
  then show ?case using s1 by simp
qed

section \<open>Observations and messages\<close>

lemma target_cell_ne: "target_cell d p = Some p' \<Longrightarrow> p' \<noteq> p"
  unfolding target_cell_def by (cases p) (auto split: if_splits)

lemma target_cell_None: "target_cell d p = None \<longleftrightarrow> d \<notin> {''NORTH'', ''SOUTH'', ''EAST'', ''WEST''}"
  unfolding target_cell_def by simp

lemma msgs_distinct: "distinct [msg_success, msg_moved p, msg_blocked, msg_invalid]"
  by (simp add: msg_success_def msg_moved_def msg_blocked_def msg_invalid_def)

lemma startswith_Cons_ne: "p \<noteq> [] \<Longrightarrow> c \<noteq> hd p \<Longrightarrow> \<not> startswith (c # cs) p"
  by (cases p) (auto simp: startswith_def)

lemma startswith_sep:
  assumes "c \<notin> set p"
  shows "startswith (xs @ c # ys) p \<longleftrightarrow> startswith xs p"
proof (cases "length p \<le> length xs")
  case True
  then show ?thesis by (simp add: startswith_def)
next
  case False
  then have "take (length p) (xs @ c # ys) = xs @ c # take (length p - Suc (length xs)) ys"
    by (simp add: take_Cons' not_le)
  then have "c \<in> set (take (length p) (xs @ c # ys))" by simp
  then have "take (length p) (xs @ c # ys) \<noteq> p" using assms by metis
  moreover have "take (length p) xs \<noteq> p"
  proof
    assume "take (length p) xs = p"
    then have "length (take (length p) xs) = length p" by simp
    then show False using False by simp
  qed
  ultimately show ?thesis by (simp add: startswith_def)
qed

lemma contains_Nil: "contains ys []"
  by (cases ys) (simp_all add: startswith_def)

lemma contains_no_sep: "c \<notin> set p \<Longrightarrow> contains (c # ys) p = contains ys p"
  by (cases p) (auto simp: startswith_def contains_Nil)

lemma contains_sep:
  assumes "c \<notin> set p" "p \<noteq> []"
  shows "contains (xs @ c # ys) p \<longleftrightarrow> contains xs p \<or> contains ys p"
proof (induction xs)
  case Nil
  then show ?case using assms contains_no_sep [of c p ys] by simp
next
  case (Cons x xs)
  have "startswith ((x # xs) @ c # ys) p \<longleftrightarrow> startswith (x # xs) p"
    using startswith_sep [OF assms(1)] by blast
  then show ?case using Cons by auto
qed

lemma action_match_none: "\<not> contains m ''Action:'' \<Longrightarrow> action_match m = None"
  by (induction m) auto

lemma agent_step_format_error:
  assumes "\<not> startswith m ''Final Answer:''" "action_match m = None \<or> input_match m = None"
  shows "agent_step m h e = (Break Format_Error, h @ [(''assistant'', m)], e)"
  using assms by (auto simp: agent_step_def Let_def split: option.splits)

lemma sq_not_in_SUCCESS: "char_of (39 :: nat) \<notin> set ''SUCCESS''"
  by code_simp

lemma no_SUCCESS_in_frame:
  "\<not> contains ''ERROR: Tool '' ''SUCCESS''" "\<not> contains '' not found in AVAILABLE_TOOLS.'' ''SUCCESS''"
  by code_simp+

lemma contains_unknown_tool: "contains (msg_unknown_tool a) ''SUCCESS'' \<longleftrightarrow> contains a ''SUCCESS''"
proof -
  have ne: "''SUCCESS'' \<noteq> []" by simp
  have eq: "msg_unknown_tool a =
      ''ERROR: Tool '' @ char_of (39 :: nat) # (a @ char_of (39 :: nat) # '' not found in AVAILABLE_TOOLS.'')"
    by (simp add: msg_unknown_tool_def sq_def)
  have "contains (msg_unknown_tool a) ''SUCCESS'' \<longleftrightarrow>
        contains ''ERROR: Tool '' ''SUCCESS'' \<or>
        contains (a @ char_of (39 :: nat) # '' not found in AVAILABLE_TOOLS.'') ''SUCCESS''"
    unfolding eq by (rule contains_sep [OF sq_not_in_SUCCESS ne])
  moreover have "contains (a @ char_of (39 :: nat) # '' not found in AVAILABLE_TOOLS.'') ''SUCCESS'' \<longleftrightarrow>
        contains a ''SUCCESS'' \<or> contains '' not found in AVAILABLE_TOOLS.'' ''SUCCESS''"
    by (rule contains_sep [OF sq_not_in_SUCCESS ne])
  ultimately show ?thesis using no_SUCCESS_in_frame by blast
qed

lemma dispatch_unknown: "action \<notin> set AVAILABLE_TOOLS \<Longrightarrow> dispatch e action i = (msg_unknown_tool action, e)"
  by (simp add: dispatch_def)

section \<open>What the planner answers\<close>





lemma replay_reachable:
  assumes "rectangular (grid e)" "replay e ds = Inr (obs, e')"
  shows "reachable (grid e) (agent_pos e) (agent_pos e') \<and>
         dist (grid e) (agent_pos e) (agent_pos e') \<le> length ds \<and>
         e' = e\<lparr>agent_pos := agent_pos e'\<rparr>"
proof -
  from replay_go [OF assms(1), of ds] assms(2)
  have "e' = e\<lparr>agent_pos := foldl (go (grid e)) (agent_pos e) ds\<rparr>" by auto
  then have "agent_pos e' = foldl (go (grid e)) (agent_pos e) ds" "e' = e\<lparr>agent_pos := agent_pos e'\<rparr>"
    by simp_all
  then show ?thesis using foldl_go_reachable foldl_go_dist by metis
qed

lemma plan_exists:
  assumes "rectangular (grid e)" "reachable (grid e) (agent_pos e) t"
  shows "\<exists>plan obs. path_dirs (grid e) (agent_pos e) t = Some (Inr (Some plan)) \<and>
           length plan = dist (grid e) (agent_pos e) t \<and>
           replay e plan = Inr (obs, e\<lparr>agent_pos := t\<rparr>) \<and> length obs = length plan"
proof -
  from path_dirs_reachable [OF assms(2)] obtain ds where ds:
    "path_dirs (grid e) (agent_pos e) t = Some (Inr (Some ds))"
    "length ds = dist (grid e) (agent_pos e) t" "foldl (go (grid e)) (agent_pos e) ds = t" by blast
  from replay_go [OF assms(1), of ds] ds(3) obtain obs where
    "replay e ds = Inr (obs, e\<lparr>agent_pos := t\<rparr>)" "length obs = length ds" by auto
  then show ?thesis using ds(1,2) by blast
qed










lemma grid0_targets: "find_targets (grid environment) = Inr [(2, 4)]"
  by code_simp

lemma grid0_plan:
  "path_dirs (grid environment) (agent_pos environment) (2, 4) =
     Some (Inr (Some [''SOUTH'', ''SOUTH'', ''EAST'', ''EAST'', ''NORTH'', ''EAST'']))"
  by code_simp

lemma grid0_replay:
  "replay environment [''SOUTH'', ''SOUTH'', ''EAST'', ''EAST'', ''NORTH'', ''EAST''] =
     Inr ([msg_moved (2, 1), msg_moved (3, 1), msg_moved (3, 2), msg_moved (3, 3), msg_moved (2, 3),
           msg_success],
          environment\<lparr>agent_pos := (2, 4)\<rparr>)"
  by code_simp

lemma rectangular_environment: "rectangular (grid environment)"
  by (simp add: environment_def rectangular_grid0)

lemma grid0_distance:
  assumes "replay environment ds = Inr (obs, e')" "agent_pos e' = (2, 4)"
  shows "6 \<le> length ds"
proof -
  have re: "reachable (grid environment) (agent_pos environment) (2, 4)"
      "dist (grid environment) (agent_pos environment) (2, 4) \<le> length ds"
    using replay_reachable [OF rectangular_environment assms(1)] assms(2) by simp_all
  from plan_exists [OF rectangular_environment re(1)] grid0_plan
  have "dist (grid environment) (agent_pos environment) (2, 4) = 6" by auto
  then show ?thesis using re(2) by simp
qed

section \<open>One iteration of the loop\<close>


























section \<open>A whole run\<close>









section \<open>Properties of the program\<close>

text \<open>
  C10. The text returned by the decision source does not depend on the conversation history
  handed to it: on the same environment and the same cached plan, any two histories give the
  same result (message and cache alike).
\<close>

theorem get_llm_response_ignores_history:
  "get_llm_response h1 e c = get_llm_response h2 e c"
  by (simp add: get_llm_response_def)

text \<open>
  C8. For every sequence of tool calls that returns: the grid is unchanged; the memory log is
  exactly what the \<^verbatim>\<open>update_map\<close> calls of the sequence write, so \<^verbatim>\<open>move_agent\<close>, \<^verbatim>\<open>look_around\<close> and
  \<^verbatim>\<open>get_pos\<close> never touch it; without a \<^verbatim>\<open>move_agent\<close> call the position is unchanged; and a
  sequence of \<^verbatim>\<open>look_around\<close> and \<^verbatim>\<open>get_pos\<close> calls leaves the whole environment as it was.
\<close>

theorem tools_frame:
  assumes "run_tools e cs = Inr (obs, e')"
  shows "grid e' = grid e \<and>
         map_memory e' = recorded (map_memory e) cs \<and>
         ((\<forall>c \<in> set cs. \<not> is_move c) \<longrightarrow> agent_pos e' = agent_pos e) \<and>
         (set cs \<subseteq> {Look, Get_Pos} \<longrightarrow> e' = e)"
proof -
  note f = run_tools_frame [OF assms]
  have "e' = e" if a: "set cs \<subseteq> {Look, Get_Pos}"
  proof -
    have "\<forall>c \<in> set cs. \<not> is_move c" using a by auto
    then show ?thesis using f recorded_queries [OF a, of "map_memory e"] by simp
  qed
  then show ?thesis using f by blast
qed

theorem tools_frame_witness:
  "run_tools environment [Look, Get_Pos] =
     Inr ([''OBSERVATION: You are at (1, 1). This area is Open.'', ''(1, 1)''], environment) \<and>
   run_tools environment [Move ''south'', Look, Record ''(2, 1)'' ''open'', Get_Pos] =
     Inr ([msg_moved (2, 1), ''OBSERVATION: You are at (2, 1). This area is Open.'',
           ''OBSERVATION: Map memory updated for location (2, 1).'', ''(2, 1)''],
          \<lparr>grid = grid0, agent_pos = (2, 1), map_memory = [(''(2, 1)'', ''open'')]\<rparr>) \<and>
   set [Look, Get_Pos] \<subseteq> {Look, Get_Pos} \<and>
   map_memory \<lparr>grid = grid0, agent_pos = (2, 1), map_memory = [(''(2, 1)'', ''open'')]\<rparr> =
     recorded (map_memory environment) [Move ''south'', Look, Record ''(2, 1)'' ''open'', Get_Pos]"
proof -
  have a: "run_tools environment [Look, Get_Pos] =
     Inr ([''OBSERVATION: You are at (1, 1). This area is Open.'', ''(1, 1)''], environment)"
    by code_simp
  have b: "run_tools environment [Move ''south'', Look, Record ''(2, 1)'' ''open'', Get_Pos] =
     Inr ([msg_moved (2, 1), ''OBSERVATION: You are at (2, 1). This area is Open.'',
           ''OBSERVATION: Map memory updated for location (2, 1).'', ''(2, 1)''],
          \<lparr>grid = grid0, agent_pos = (2, 1), map_memory = [(''(2, 1)'', ''open'')]\<rparr>)"
    by code_simp
  show ?thesis using a b tools_frame [OF a] tools_frame [OF b] by simp
qed

text \<open>
  C9. From the initial environment (the 5 by 5 grid, the agent on row 1, column 1), every
  sequence of tool calls returns, leaves the grid as it is, and leaves the agent on a cell
  inside the grid that is not a wall.
\<close>

theorem position_stays_legal:
  "\<exists>obs e'. run_tools environment cs = Inr (obs, e') \<and> grid e' = grid0 \<and> legal grid0 (agent_pos e')"
proof -
  have "rectangular (grid environment)" "legal (grid environment) (agent_pos environment)"
    using rectangular_grid0 legal_start by (simp_all add: environment_def)
  from run_tools_legal [OF this, of cs] obtain obs e' where
    r: "run_tools environment cs = Inr (obs, e')" "grid e' = grid environment"
       "legal (grid e') (agent_pos e')" by blast
  have "grid e' = grid0" using r(2) by (simp add: environment_def)
  then show ?thesis using r(1,3) by auto
qed

text \<open>
  C3. On a rectangular grid every call of \<^verbatim>\<open>move_agent\<close> returns, and what it returns is one of
  four observations that are pairwise different: success on the treasure, moved (with the new
  position), blocked, or invalid direction. The direction is compared after upper-casing, so
  the observation is the invalid one exactly when the upper-cased text is none of NORTH, SOUTH,
  EAST and WEST. The position changes exactly when the observation is success or moved, and on
  blocked or invalid the environment is unchanged.
\<close>

theorem move_agent_outcomes:
  assumes "rectangular (grid e)"
  shows "\<exists>ob e'. move_agent e d = Inr (ob, e') \<and>
     (ob = msg_success \<or> ob = msg_moved (agent_pos e') \<or> ob = msg_blocked \<or> ob = msg_invalid) \<and>
     distinct [msg_success, msg_moved (agent_pos e'), msg_blocked, msg_invalid] \<and>
     (ob = msg_invalid \<longleftrightarrow> upper d \<notin> {''NORTH'', ''SOUTH'', ''EAST'', ''WEST''}) \<and>
     (agent_pos e' \<noteq> agent_pos e \<longleftrightarrow> ob = msg_success \<or> ob = msg_moved (agent_pos e')) \<and>
     (ob = msg_blocked \<or> ob = msg_invalid \<longrightarrow> e' = e)"
proof (cases "target_cell (upper d) (agent_pos e)")
  case None
  then have "move_agent e d = Inr (msg_invalid, e)" by (simp add: move_agent_def)
  moreover have "upper d \<notin> {''NORTH'', ''SOUTH'', ''EAST'', ''WEST''}"
    using None target_cell_None by blast
  ultimately show ?thesis using msgs_distinct [of "agent_pos e"] by auto
next
  case (Some p')
  have inn: "upper d \<in> {''NORTH'', ''SOUTH'', ''EAST'', ''WEST''}"
    using Some target_cell_None [of "upper d" "agent_pos e"] by auto
  have ne: "p' \<noteq> agent_pos e" using Some by (rule target_cell_ne)
  show ?thesis
  proof (cases "legal (grid e) p'")
    case True
    then have "move_agent e d =
        Inr (if grid e ! nat (fst p') ! nat (snd p') = Treasure then msg_success else msg_moved p',
             e\<lparr>agent_pos := p'\<rparr>)"
      using Some by (simp add: move_agent_rect [OF assms])
    then show ?thesis using inn ne msgs_distinct [of p'] by auto
  next
    case False
    then have "move_agent e d = Inr (msg_blocked, e)"
      using Some by (simp add: move_agent_rect [OF assms])
    then show ?thesis using inn msgs_distinct [of "agent_pos e"] by auto
  qed
qed

theorem move_agent_outcomes_witness:
  "rectangular (grid environment) \<and>
   move_agent environment ''sOuth'' = Inr (msg_moved (2, 1), environment\<lparr>agent_pos := (2, 1)\<rparr>) \<and>
   move_agent environment ''North'' = Inr (msg_blocked, environment) \<and>
   move_agent environment ''up'' = Inr (msg_invalid, environment) \<and>
   move_agent (environment\<lparr>agent_pos := (2, 3)\<rparr>) ''east'' =
     Inr (msg_success, environment\<lparr>agent_pos := (2, 4)\<rparr>)"
proof -
  have r: "rectangular (grid environment)" by (simp add: environment_def rectangular_grid0)
  have m1: "move_agent environment ''sOuth'' = Inr (msg_moved (2, 1), environment\<lparr>agent_pos := (2, 1)\<rparr>)"
    by code_simp
  have m2: "move_agent environment ''North'' = Inr (msg_blocked, environment)"
    by code_simp
  have m3: "move_agent environment ''up'' = Inr (msg_invalid, environment)"
    by code_simp
  have m4: "move_agent (environment\<lparr>agent_pos := (2, 3)\<rparr>) ''east'' =
     Inr (msg_success, environment\<lparr>agent_pos := (2, 4)\<rparr>)"
    by code_simp
  show ?thesis
    using r m1 m2 m3 m4 move_agent_outcomes [OF r, of "''sOuth''"] by simp
qed

text \<open>
  C5. A message that does not begin with the final marker and contains no action marker ends
  the loop at once with the format-error outcome: the message is appended to the history, no
  observation follows it, and the environment is untouched (no tool was called).
\<close>

theorem malformed_message_stops:
  assumes "\<not> startswith m ''Final Answer:''" "\<not> contains m ''Action:''"
  shows "agent_step m h e = (Break Format_Error, h @ [(''assistant'', m)], e)"
  using assms(1) action_match_none [OF assms(2)] by (rule_tac agent_step_format_error) auto

theorem malformed_message_stops_witness:
  "\<not> startswith ''I will go north.'' ''Final Answer:'' \<and> \<not> contains ''I will go north.'' ''Action:'' \<and>
   agent_step ''I will go north.'' initial_history environment =
     (Break Format_Error, initial_history @ [(''assistant'', ''I will go north.'')], environment)"
proof -
  have a: "\<not> startswith ''I will go north.'' ''Final Answer:''" by code_simp
  have b: "\<not> contains ''I will go north.'' ''Action:''" by code_simp
  show ?thesis using a b malformed_message_stops [OF a b] by simp
qed

text \<open>
  C7, as amended. An action name that is not in \<^verbatim>\<open>AVAILABLE_TOOLS\<close> yields the unknown-tool
  observation, which is appended to the history after the message, and the environment is
  unchanged. The loop goes on to its next iteration unless the action name contains the text
  SUCCESS: the unknown-tool observation quotes the name, the loop's success check is a substring
  test on the observation, and in that case the run ends with the goal-found outcome.
\<close>

theorem unknown_tool_step:
  assumes "\<not> startswith m ''Final Answer:''" "action_match m = Some a" "input_match m = Some i"
    and "strip a \<notin> set AVAILABLE_TOOLS"
  shows "agent_step m h e =
     (if contains (strip a) ''SUCCESS'' then Break Goal_Found else Continue,
      h @ [(''assistant'', m), (''user'', ''Observation: '' @ msg_unknown_tool (strip a))], e)"
  using assms
  by (simp add: agent_step_def Let_def dispatch_unknown contains_unknown_tool)

theorem unknown_tool_step_witness:
  "\<not> startswith (''Action: fly'' @ [newline] @ ''Action Input: up'') ''Final Answer:'' \<and>
   action_match (''Action: fly'' @ [newline] @ ''Action Input: up'') = Some ''fly'' \<and>
   input_match (''Action: fly'' @ [newline] @ ''Action Input: up'') = Some ''up'' \<and>
   strip ''fly'' \<notin> set AVAILABLE_TOOLS \<and>
   agent_step (''Action: fly'' @ [newline] @ ''Action Input: up'') initial_history environment =
     (Continue,
      initial_history @ [(''assistant'', ''Action: fly'' @ [newline] @ ''Action Input: up''),
                         (''user'', ''Observation: '' @ msg_unknown_tool ''fly'')],
      environment)"
proof -
  have a: "\<not> startswith (''Action: fly'' @ [newline] @ ''Action Input: up'') ''Final Answer:''"
    by code_simp
  have b: "action_match (''Action: fly'' @ [newline] @ ''Action Input: up'') = Some ''fly''"
    by code_simp
  have c: "input_match (''Action: fly'' @ [newline] @ ''Action Input: up'') = Some ''up''"
    by code_simp
  have d: "strip ''fly'' \<notin> set AVAILABLE_TOOLS" by code_simp
  have e: "strip ''fly'' = ''fly''" "\<not> contains ''fly'' ''SUCCESS''" by code_simp+
  show ?thesis
    using a b c d e unknown_tool_step [OF a b c d, of initial_history environment] by simp
qed

text \<open>
  The claim C7 as first stated fails on the action name SUCCESS: it is not a tool, and the step
  ends the run instead of continuing.
\<close>

theorem unknown_tool_counterexample:
  "''SUCCESS'' \<notin> set AVAILABLE_TOOLS \<and>
   agent_step (''Action: SUCCESS'' @ [newline] @ ''Action Input: x'') initial_history environment =
     (Break Goal_Found,
      initial_history @ [(''assistant'', ''Action: SUCCESS'' @ [newline] @ ''Action Input: x''),
                         (''user'', ''Observation: '' @ msg_unknown_tool ''SUCCESS'')],
      environment)"
  by code_simp



text \<open>
  C2, as amended. In the program's own grid the only treasure is on row 2, column 4, and from
  the start on row 1, column 1 the plan is SOUTH, SOUTH, EAST, EAST, NORTH, EAST: six moves,
  not four. Replaying it yields five moved observations and then the success observation, the
  position reported afterwards is (2, 4), and no replay of fewer than six moves ends there.
\<close>

theorem concrete_plan:
  "find_targets (grid environment) = Inr [(2, 4)] \<and>
   path_dirs (grid environment) (agent_pos environment) (2, 4) =
     Some (Inr (Some [''SOUTH'', ''SOUTH'', ''EAST'', ''EAST'', ''NORTH'', ''EAST''])) \<and>
   replay environment [''SOUTH'', ''SOUTH'', ''EAST'', ''EAST'', ''NORTH'', ''EAST''] =
     Inr ([msg_moved (2, 1), msg_moved (3, 1), msg_moved (3, 2), msg_moved (3, 3), msg_moved (2, 3),
           msg_success],
          environment\<lparr>agent_pos := (2, 4)\<rparr>) \<and>
   get_pos (environment\<lparr>agent_pos := (2, 4)\<rparr>) = ''(2, 4)'' \<and>
   (\<forall>ds obs e'. replay environment ds = Inr (obs, e') \<and> agent_pos e' = (2, 4) \<longrightarrow> 6 \<le> length ds)"
proof -
  have "get_pos (environment\<lparr>agent_pos := (2, 4)\<rparr>) = ''(2, 4)''" by code_simp
  then show ?thesis using grid0_targets grid0_plan grid0_replay grid0_distance by blast
qed

theorem concrete_plan_witness:
  "replay environment [''south'', ''up'', ''south'', ''east'', ''east'', ''north'', ''east''] =
     Inr ([msg_moved (2, 1), msg_invalid, msg_moved (3, 1), msg_moved (3, 2), msg_moved (3, 3),
           msg_moved (2, 3), msg_success],
          environment\<lparr>agent_pos := (2, 4)\<rparr>) \<and>
   agent_pos (environment\<lparr>agent_pos := (2, 4)\<rparr>) = (2, 4) \<and>
   6 \<le> length [''south'', ''up'', ''south'', ''east'', ''east'', ''north'', ''east'']"
proof -
  have a: "replay environment [''south'', ''up'', ''south'', ''east'', ''east'', ''north'', ''east''] =
     Inr ([msg_moved (2, 1), msg_invalid, msg_moved (3, 1), msg_moved (3, 2), msg_moved (3, 3),
           msg_moved (2, 3), msg_success],
          environment\<lparr>agent_pos := (2, 4)\<rparr>)"
    by code_simp
  have b: "agent_pos (environment\<lparr>agent_pos := (2, 4)\<rparr>) = (2, 4)" by simp
  show ?thesis using a b concrete_plan by blast
qed

text \<open>
  The claim C2 as first stated fails: the plan has six moves, and no four moves reach the
  treasure.
\<close>

theorem concrete_plan_not_four:
  "path_dirs (grid environment) (agent_pos environment) (2, 4) =
     Some (Inr (Some [''SOUTH'', ''SOUTH'', ''EAST'', ''EAST'', ''NORTH'', ''EAST''])) \<and>
   length [''SOUTH'', ''SOUTH'', ''EAST'', ''EAST'', ''NORTH'', ''EAST''] \<noteq> (4 :: nat) \<and>
   \<not> (\<exists>ds obs e'. length ds = 4 \<and> replay environment ds = Inr (obs, e') \<and> agent_pos e' = (2, 4))"
proof -
  have "\<not> (\<exists>ds obs e'. length ds = 4 \<and> replay environment ds = Inr (obs, e') \<and> agent_pos e' = (2, 4))"
  proof
    assume "\<exists>ds obs e'. length ds = 4 \<and> replay environment ds = Inr (obs, e') \<and> agent_pos e' = (2, 4)"
    then obtain ds obs e' where "length ds = 4" "replay environment ds = Inr (obs, e')"
      "agent_pos e' = (2, 4)" by blast
    then show False using grid0_distance [of ds obs e'] by simp
  qed
  then show ?thesis using grid0_plan by simp
qed





end
